theory Spec2Isabelle
  imports Complex_Main "HOL-Library.Word"
begin

section \<open>RunningAverage: a circular buffer of 16-bit samples\<close>

text \<open>
  The class \<open>RunningAverage\<close> (RunningAverage.h, RunningAverage.cpp) keeps its samples in a
  heap block \<open>_array\<close> and maintains a count, a write index, a logical window length
  (\<open>_partial\<close>), a running sum and the extrema of the samples added. All integer members are
  \<open>uint16_t\<close>, modelled as \<open>16 word\<close>: addition and subtraction wrap modulo \<open>2 ^ 16\<close>, division
  and comparison are unsigned.

  The member names of the class start with an underscore, which is no identifier here;
  \<open>_size\<close> is \<open>m_size\<close>, \<open>_count\<close> is \<open>m_count\<close>, and so on.
\<close>

type_synonym u16 = "16 word"

text \<open>
  An access through a null pointer or outside the allocated block is undefined behaviour in
  C++; the model makes it a value.
\<close>

datatype fault = NullPointer | OutOfBounds

text \<open>
  \<open>_array\<close> is \<open>None\<close> for the null pointer, and otherwise the block \<open>malloc\<close> returned, as the
  list of its \<open>uint16_t\<close> slots.
\<close>

record running_average =
  m_size :: u16
  m_count :: u16
  m_index :: u16
  m_partial :: u16
  m_sum :: u16
  m_array :: "u16 list option"
  m_min :: u16
  m_max :: u16

subsection \<open>The type float\<close>

text \<open>
  RunningAverage.cpp defines \<open>getAverageLast\<close> with a local \<open>float\<close> sum and the result type
  \<open>float\<close>, and returns \<open>NAN\<close> from it; RunningAverage.h declares the result as \<open>uint16_t\<close>. A
  \<open>float\<close> is an IEEE binary32 value, modelled as \<open>rat option\<close>: \<open>None\<close> is \<open>NAN\<close>, and \<open>Some q\<close> is
  the number the value stands for.

  Every \<open>float\<close> operation rounds its exact result to the nearest binary32 value, ties to the
  even significand. \<open>ulp\<close> is the spacing of the binary32 values around \<open>x\<close>: \<open>2 ^ (e - 23)\<close>
  for \<open>2 ^ e \<le> \<bar>x\<bar> < 2 ^ (e + 1)\<close>, found by halving from the largest exponent 127 down to
  the smallest, \<open>- 126\<close>, whose spacing the subnormal values share. Results of magnitude
  \<open>2 ^ 128\<close> and more, which round to infinity, do not arise: a sum of 65535 samples is below
  \<open>2 ^ 32\<close>.
\<close>

type_synonym cfloat = "rat option"

definition NAN :: cfloat where
  "NAN = None"

definition round_even :: "rat \<Rightarrow> int" where
  "round_even x =
     (let f = \<lfloor>x\<rfloor>; r = x - of_int f
      in if r < 1 / 2 then f
         else if r > 1 / 2 then f + 1
         else if even f then f else f + 1)"

fun ulp32 :: "nat \<Rightarrow> rat \<Rightarrow> rat \<Rightarrow> rat" where
  "ulp32 0 u x = u"
| "ulp32 (Suc k) u x = (if x < 2 ^ 23 * u then ulp32 k (u / 2) x else u)"

definition ulp :: "rat \<Rightarrow> rat" where
  "ulp x = ulp32 253 (2 ^ 104) \<bar>x\<bar>"

definition binary32 :: "rat \<Rightarrow> rat" where
  "binary32 x = (if x = 0 then 0 else of_int (round_even (x / ulp x)) * ulp x)"

definition min_normal :: rat where
  "min_normal = 1 / 2 ^ 126"

text \<open>
  The conversion of a \<open>float\<close> to \<open>uint16_t\<close> drops the fraction; it is not defined for \<open>NAN\<close>
  nor when the integer is out of range, and the result is \<open>None\<close> there.
\<close>

definition to_uint16 :: "cfloat \<Rightarrow> u16 option" where
  "to_uint16 f =
     (case f of
        None \<Rightarrow> None
      | Some q \<Rightarrow>
          let t = (if q < 0 then - \<lfloor>- q\<rfloor> else \<lfloor>q\<rfloor>)
          in if 0 \<le> t \<and> t < 65536 then Some (of_int t) else None)"

subsection \<open>Array accesses\<close>

definition rd :: "u16 list option \<Rightarrow> nat \<Rightarrow> fault + u16" where
  "rd arr i =
     (case arr of
        None \<Rightarrow> Inl NullPointer
      | Some a \<Rightarrow> if i < length a then Inr (a ! i) else Inl OutOfBounds)"

definition wr :: "u16 list option \<Rightarrow> nat \<Rightarrow> u16 \<Rightarrow> fault + u16 list option" where
  "wr arr i x =
     (case arr of
        None \<Rightarrow> Inl NullPointer
      | Some a \<Rightarrow> if i < length a then Inr (Some (a[i := x])) else Inl OutOfBounds)"

subsection \<open>clear\<close>

text \<open>
  \<^verbatim>\<open>for (uint16_t i = _size; i > 0; ) { _array[--i] = 0; }\<close>
\<close>

fun clear_loop :: "nat \<Rightarrow> u16 list option \<Rightarrow> fault + u16 list option" where
  "clear_loop 0 arr = Inr arr"
| "clear_loop (Suc i) arr =
     (case wr arr i 0 of Inl e \<Rightarrow> Inl e | Inr arr' \<Rightarrow> clear_loop i arr')"

definition clear :: "running_average \<Rightarrow> fault + running_average" where
  "clear s =
     (case clear_loop (unat (m_size s)) (m_array s) of
        Inl e \<Rightarrow> Inl e
      | Inr arr \<Rightarrow>
          Inr (s\<lparr>m_count := 0, m_index := 0, m_sum := 0, m_min := 0, m_max := 0,
                 m_array := arr\<rparr>))"

subsection \<open>The constructor\<close>

text \<open>
  \<^verbatim>\<open>_array = (float*) malloc(_size * sizeof(float));\<close>
  The second argument is what \<open>malloc\<close> returned: \<open>None\<close> when it failed, otherwise the block with
  the contents it happens to have. \<open>malloc_ok\<close> says that a block has the size requested, in
  \<open>uint16_t\<close> slots, with a four-byte \<open>float\<close> and an unbounded \<open>size_t\<close>.
\<close>

definition sizeof_float :: nat where
  "sizeof_float = 4"

definition sizeof_uint16 :: nat where
  "sizeof_uint16 = 2"

definition malloc_ok :: "u16 \<Rightarrow> u16 list option \<Rightarrow> bool" where
  "malloc_ok sz mem =
     (case mem of
        None \<Rightarrow> True
      | Some b \<Rightarrow> length b = unat sz * sizeof_float div sizeof_uint16)"

definition RunningAverage :: "u16 \<Rightarrow> u16 list option \<Rightarrow> fault + running_average" where
  "RunningAverage sz mem =
     clear \<lparr>m_size = (if mem = None then 0 else sz), m_count = 0, m_index = 0,
            m_partial = sz, m_sum = 0, m_array = mem, m_min = 0, m_max = 0\<rparr>"

subsection \<open>addValue\<close>

definition addValue :: "running_average \<Rightarrow> u16 \<Rightarrow> fault + running_average" where
  "addValue s val =
     (if m_array s = None then Inr s
      else
        case rd (m_array s) (unat (m_index s)) of
          Inl e \<Rightarrow> Inl e
        | Inr old \<Rightarrow>
            (case wr (m_array s) (unat (m_index s)) val of
               Inl e \<Rightarrow> Inl e
             | Inr arr \<Rightarrow>
                 (case rd arr (unat (m_index s)) of
                    Inl e \<Rightarrow> Inl e
                  | Inr new \<Rightarrow>
                      let nsum = (m_sum s - old) + new;
                          index1 = m_index s + 1;
                          nindex = (if index1 = m_partial s then 0 else index1);
                          nmin = (if m_count s = 0 then val
                                  else if val < m_min s then val
                                  else m_min s);
                          nmax = (if m_count s = 0 then val
                                  else if val < m_min s then m_max s
                                  else if val > m_max s then val
                                  else m_max s);
                          ncount = (if m_count s < m_partial s then m_count s + 1
                                    else m_count s)
                      in Inr (s\<lparr>m_count := ncount, m_index := nindex, m_sum := nsum,
                                m_array := arr, m_min := nmin, m_max := nmax\<rparr>))))"

subsection \<open>getAverage and getFastAverage\<close>

text \<open>
  \<^verbatim>\<open>_sum = 0; for (uint16_t i = 0; i < _count; i++) { _sum += _array[i]; }\<close>
\<close>

function getAverage_loop :: "u16 list option \<Rightarrow> nat \<Rightarrow> nat \<Rightarrow> u16 \<Rightarrow> fault + u16" where
  "getAverage_loop arr i n acc =
     (if i < n then
        (case rd arr i of
           Inl e \<Rightarrow> Inl e
         | Inr x \<Rightarrow> getAverage_loop arr (Suc i) n (acc + x))
      else Inr acc)"
  by pat_completeness auto
termination
  by (relation "measure (\<lambda>(arr, i, n, acc). n - i)") auto

declare getAverage_loop.simps [simp del]

text \<open>
  \<open>getAverage\<close> has result type \<open>uint16_t\<close> and returns \<open>NAN\<close> on an empty buffer; the conversion
  of \<open>NAN\<close> to an integer is not defined, so that result is \<open>None\<close>. The function writes \<open>_sum\<close>,
  so it returns the state as well.
\<close>

definition getAverage :: "running_average \<Rightarrow> fault + (u16 option \<times> running_average)" where
  "getAverage s =
     (if m_count s = 0 then Inr (None, s)
      else
        case getAverage_loop (m_array s) 0 (unat (m_count s)) 0 of
          Inl e \<Rightarrow> Inl e
        | Inr nsum \<Rightarrow> Inr (Some (nsum div m_count s), s\<lparr>m_sum := nsum\<rparr>))"

definition getFastAverage :: "running_average \<Rightarrow> u16" where
  "getFastAverage s = (if m_count s = 0 then 0 else m_sum s div m_count s)"

subsection \<open>Minimum and maximum\<close>

definition getMin :: "running_average \<Rightarrow> u16" where
  "getMin s = m_min s"

definition getMax :: "running_average \<Rightarrow> u16" where
  "getMax s = m_max s"

function getMinInBuffer_loop :: "u16 list option \<Rightarrow> nat \<Rightarrow> nat \<Rightarrow> u16 \<Rightarrow> fault + u16" where
  "getMinInBuffer_loop arr i n mn =
     (if i < n then
        (case rd arr i of
           Inl e \<Rightarrow> Inl e
         | Inr x \<Rightarrow> getMinInBuffer_loop arr (Suc i) n (if x < mn then x else mn))
      else Inr mn)"
  by pat_completeness auto
termination
  by (relation "measure (\<lambda>(arr, i, n, mn). n - i)") auto

declare getMinInBuffer_loop.simps [simp del]

definition getMinInBuffer :: "running_average \<Rightarrow> fault + u16" where
  "getMinInBuffer s =
     (if m_count s = 0 then Inr 0
      else
        case rd (m_array s) 0 of
          Inl e \<Rightarrow> Inl e
        | Inr x0 \<Rightarrow> getMinInBuffer_loop (m_array s) 1 (unat (m_count s)) x0)"

function getMaxInBuffer_loop :: "u16 list option \<Rightarrow> nat \<Rightarrow> nat \<Rightarrow> u16 \<Rightarrow> fault + u16" where
  "getMaxInBuffer_loop arr i n mx =
     (if i < n then
        (case rd arr i of
           Inl e \<Rightarrow> Inl e
         | Inr x \<Rightarrow> getMaxInBuffer_loop arr (Suc i) n (if x > mx then x else mx))
      else Inr mx)"
  by pat_completeness auto
termination
  by (relation "measure (\<lambda>(arr, i, n, mx). n - i)") auto

declare getMaxInBuffer_loop.simps [simp del]

definition getMaxInBuffer :: "running_average \<Rightarrow> fault + u16" where
  "getMaxInBuffer s =
     (if m_count s = 0 then Inr 0
      else
        case rd (m_array s) 0 of
          Inl e \<Rightarrow> Inl e
        | Inr x0 \<Rightarrow> getMaxInBuffer_loop (m_array s) 1 (unat (m_count s)) x0)"

subsection \<open>getElement and getValue\<close>

definition getElement :: "running_average \<Rightarrow> u16 \<Rightarrow> fault + u16" where
  "getElement s index =
     (if m_count s = 0 then Inr 0 else rd (m_array s) (unat index))"

text \<open>
  \<open>getValue\<close> is defined with result type \<open>float\<close>; every value it returns is a 16-bit integer,
  which the conversion keeps, so the model returns that integer.
\<close>

definition getValue :: "running_average \<Rightarrow> u16 \<Rightarrow> fault + u16" where
  "getValue s position =
     (if m_count s = 0 then Inr 0
      else if position \<ge> m_count s then Inr 0
      else
        let pos = position + m_index s;
            pos' = (if pos \<ge> m_count s then pos - m_count s else pos)
        in rd (m_array s) (unat pos'))"

subsection \<open>fillValue and setPartial\<close>

text \<open>
  \<^verbatim>\<open>for (uint16_t i = s; i > 0; i--) { addValue(value); }\<close>
  The parameter \<open>value\<close> is a \<open>float\<close> in the definition and a \<open>uint16_t\<close> in the declaration; it is
  only passed to \<open>addValue\<close>, which takes a \<open>uint16_t\<close>, and the model takes that sample.
\<close>

fun fillValue_loop :: "nat \<Rightarrow> running_average \<Rightarrow> u16 \<Rightarrow> fault + running_average" where
  "fillValue_loop 0 s val = Inr s"
| "fillValue_loop (Suc i) s val =
     (case addValue s val of Inl e \<Rightarrow> Inl e | Inr s' \<Rightarrow> fillValue_loop i s' val)"

definition fillValue :: "running_average \<Rightarrow> u16 \<Rightarrow> u16 \<Rightarrow> fault + running_average" where
  "fillValue s val number =
     (case clear s of
        Inl e \<Rightarrow> Inl e
      | Inr s1 \<Rightarrow>
          let n = (if number > m_partial s1 then m_partial s1 else number)
          in fillValue_loop (unat n) s1 val)"

definition setPartial :: "running_average \<Rightarrow> u16 \<Rightarrow> fault + running_average" where
  "setPartial s partial =
     (let p = (if partial = 0 \<or> partial > m_size s then m_size s else partial)
      in clear (s\<lparr>m_partial := p\<rparr>))"

subsection \<open>getAverageLast\<close>

text \<open>
  \<^verbatim>\<open>for (uint16_t i = 0; i < cnt; i++)
  { if (idx == 0) idx = _size; idx--; _sum += _array[idx]; }\<close>
  The local \<open>_sum\<close> is a \<open>float\<close>: the slot is converted to \<open>float\<close>, which is exact, and the
  addition rounds. The loop runs \<open>cnt\<close> times; the first argument counts the iterations left.
\<close>

fun getAverageLast_loop ::
  "nat \<Rightarrow> running_average \<Rightarrow> u16 \<Rightarrow> rat \<Rightarrow> fault + rat" where
  "getAverageLast_loop 0 s idx acc = Inr acc"
| "getAverageLast_loop (Suc k) s idx acc =
     (let idx1 = (if idx = 0 then m_size s else idx);
          idx2 = idx1 - 1
      in case rd (m_array s) (unat idx2) of
           Inl e \<Rightarrow> Inl e
         | Inr x \<Rightarrow> getAverageLast_loop k s idx2 (binary32 (acc + of_nat (unat x))))"

text \<open>
  \<open>getAverageLast\<close> is the function as RunningAverage.cpp defines it, with the \<open>float\<close> result:
  \<open>cnt\<close> is converted to \<open>float\<close>, which is exact, and the division rounds.
\<close>

definition getAverageLast :: "running_average \<Rightarrow> u16 \<Rightarrow> fault + cfloat" where
  "getAverageLast s count =
     (let cnt = (if count > m_count s then m_count s else count)
      in if cnt = 0 then Inr NAN
         else
           case getAverageLast_loop (unat cnt) s (m_index s) 0 of
             Inl e \<Rightarrow> Inl e
           | Inr fsum \<Rightarrow> Inr (Some (binary32 (fsum / of_nat (unat cnt)))))"

text \<open>
  \<open>getAverageLast_declared\<close> is the same function with the result type RunningAverage.h
  declares, \<open>uint16_t\<close>: the value returned is converted.
\<close>

definition getAverageLast_declared :: "running_average \<Rightarrow> u16 \<Rightarrow> fault + u16 option" where
  "getAverageLast_declared s count =
     (case getAverageLast s count of Inl e \<Rightarrow> Inl e | Inr f \<Rightarrow> Inr (to_uint16 f))"

subsection \<open>Runs of the class\<close>

text \<open>
  The member functions that change the object. \<open>add\<close> is \<open>addValue\<close>.
\<close>

datatype call =
  Clear
  | AddValue u16
  | FillValue u16 u16
  | SetPartial u16
  | GetAverage

fun exec :: "call \<Rightarrow> running_average \<Rightarrow> fault + running_average" where
  "exec Clear s = clear s"
| "exec (AddValue v) s = addValue s v"
| "exec (FillValue v n) s = fillValue s v n"
| "exec (SetPartial p) s = setPartial s p"
| "exec GetAverage s =
     (case getAverage s of Inl e \<Rightarrow> Inl e | Inr (r, s') \<Rightarrow> Inr s')"

fun run :: "call list \<Rightarrow> running_average \<Rightarrow> fault + running_average" where
  "run [] s = Inr s"
| "run (c # cs) s = (case exec c s of Inl e \<Rightarrow> Inl e | Inr s' \<Rightarrow> run cs s')"

text \<open>
  The samples added since the buffer was last cleared, oldest first: what "the most recent
  samples" and "the oldest element" refer to. It is no part of the object.
\<close>

fun samples :: "call \<Rightarrow> running_average \<Rightarrow> u16 list \<Rightarrow> u16 list" where
  "samples Clear s h = []"
| "samples (AddValue v) s h = (if m_array s = None then h else h @ [v])"
| "samples (FillValue v n) s h =
     (if m_array s = None then []
      else replicate (min (unat n) (unat (m_partial s))) v)"
| "samples (SetPartial p) s h = []"
| "samples GetAverage s h = h"

inductive reachable :: "running_average \<Rightarrow> u16 list \<Rightarrow> bool" where
  constructed: "malloc_ok sz mem \<Longrightarrow> RunningAverage sz mem = Inr s \<Longrightarrow> reachable s []"
| called: "reachable s h \<Longrightarrow> exec c s = Inr s' \<Longrightarrow> reachable s' (samples c s h)"

text \<open>
  An object constructed and then used: the constructor with the requested size and the block
  \<open>malloc\<close> returns, followed by a list of calls.
\<close>

definition session :: "u16 \<Rightarrow> u16 list option \<Rightarrow> call list \<Rightarrow> fault + running_average" where
  "session sz mem cs =
     (case RunningAverage sz mem of Inl e \<Rightarrow> Inl e | Inr s \<Rightarrow> run cs s)"

section \<open>The invariant\<close>

text \<open>
  What holds of the object between calls, in terms of the samples \<open>h\<close> added since the last
  clear. The block keeps the length it was allocated with; the window is not longer than the
  size; the count is the number of samples, saturated at the window; the write index is the
  number of samples modulo the window; the last \<open>_count\<close> samples sit at their position
  modulo the window; the slots from \<open>_count\<close> up to the size hold zero; the sum is the sum of
  the first \<open>_count\<close> slots, in 16-bit arithmetic. After a failed allocation the size is zero
  and nothing is ever stored.
\<close>

definition invar :: "running_average \<Rightarrow> u16 list \<Rightarrow> bool" where
  "invar s h =
     (case m_array s of
        None \<Rightarrow>
          m_size s = 0 \<and> m_count s = 0 \<and> m_index s = 0 \<and> m_sum s = 0 \<and>
          m_min s = 0 \<and> m_max s = 0 \<and> h = []
      | Some a \<Rightarrow>
          length a = unat (m_size s) * sizeof_float div sizeof_uint16 \<and>
          m_partial s \<le> m_size s \<and>
          (m_partial s = 0 \<longrightarrow> m_size s = 0 \<and> h = []) \<and>
          unat (m_count s) = min (length h) (unat (m_partial s)) \<and>
          unat (m_index s) = length h mod unat (m_partial s) \<and>
          (\<forall>k. length h - unat (m_count s) \<le> k \<and> k < length h \<longrightarrow>
               a ! (k mod unat (m_partial s)) = h ! k) \<and>
          (\<forall>i. unat (m_count s) \<le> i \<and> i < unat (m_size s) \<longrightarrow> a ! i = 0) \<and>
          m_sum s = sum_list (take (unat (m_count s)) a) \<and>
          m_min s \<le> m_max s)"

text \<open>
  The part of the invariant that \<open>clear\<close> needs, and that holds before the first \<open>clear\<close>.
\<close>

definition shape :: "running_average \<Rightarrow> bool" where
  "shape s =
     (case m_array s of
        None \<Rightarrow> m_size s = 0
      | Some a \<Rightarrow>
          length a = unat (m_size s) * sizeof_float div sizeof_uint16 \<and>
          m_partial s \<le> m_size s \<and>
          (m_partial s = 0 \<longrightarrow> m_size s = 0))"

section \<open>Sums, cleared states and some concrete objects\<close>



text \<open>
  The state after \<open>clear\<close>: the counters, the sum and the extrema are zero, and so is every
  slot below the size.
\<close>

definition zeroed :: "running_average \<Rightarrow> bool" where
  "zeroed s =
     (m_count s = 0 \<and> m_index s = 0 \<and> m_sum s = 0 \<and> m_min s = 0 \<and> m_max s = 0 \<and>
      (\<forall>i < unat (m_size s). rd (m_array s) i = Inr 0))"

text \<open>
  Two concrete objects: a buffer of size 2 as the constructor leaves it (the block of four
  slots held 7 everywhere), and the same buffer after two samples 65535.
\<close>

definition st0 :: running_average where
  "st0 = \<lparr>m_size = 2, m_count = 0, m_index = 0, m_partial = 2, m_sum = 0,
          m_array = Some [0, 0, 7, 7], m_min = 0, m_max = 0\<rparr>"

definition st2 :: running_average where
  "st2 = \<lparr>m_size = 2, m_count = 2, m_index = 0, m_partial = 2, m_sum = 65534,
          m_array = Some [65535, 65535, 7, 7], m_min = 65535, m_max = 65535\<rparr>"

text \<open>
  The samples a list of calls leaves, and the samples the buffer holds: the last \<open>_count\<close>
  samples added, oldest first.
\<close>

fun samples_run :: "call list \<Rightarrow> running_average \<Rightarrow> u16 list \<Rightarrow> u16 list" where
  "samples_run [] s h = h"
| "samples_run (c # cs) s h =
     (case exec c s of Inl e \<Rightarrow> h | Inr s' \<Rightarrow> samples_run cs s' (samples c s h))"

definition held :: "running_average \<Rightarrow> u16 list \<Rightarrow> u16 list" where
  "held s h = drop (length h - unat (m_count s)) h"

text \<open>
  More concrete objects: the buffer of size 3 after the samples 1, 2, 3, 4; a buffer of size
  40000 in a zeroed block after \<open>j\<close> samples 0; and that buffer after 32768 samples 0 and one
  sample 1.
\<close>

definition st4 :: running_average where
  "st4 = \<lparr>m_size = 3, m_count = 3, m_index = 1, m_partial = 3, m_sum = 9,
          m_array = Some [4, 2, 3, 7, 7, 7], m_min = 1, m_max = 4\<rparr>"

definition zeros :: "nat \<Rightarrow> running_average" where
  "zeros j = \<lparr>m_size = 40000, m_count = of_nat j, m_index = of_nat j, m_partial = 40000,
              m_sum = 0, m_array = Some (replicate 80000 0), m_min = 0, m_max = 0\<rparr>"

definition big :: running_average where
  "big = \<lparr>m_size = 40000, m_count = 32769, m_index = 32769, m_partial = 40000,
          m_sum = 1, m_array = Some ((replicate 80000 0)[32768 := 1]), m_min = 0, m_max = 1\<rparr>"



text \<open>
  A buffer of size 3 after the samples 1, 0, 0.
\<close>

definition st_third :: running_average where
  "st_third = \<lparr>m_size = 3, m_count = 3, m_index = 0, m_partial = 3, m_sum = 1,
          m_array = Some [1, 0, 0, 7, 7, 7], m_min = 0, m_max = 1\<rparr>"

section \<open>Rounding to binary32\<close>

lemma ulp32_numeral:
  "ulp32 (numeral k) u x = (if x < 2 ^ 23 * u then ulp32 (pred_numeral k) (u / 2) x else u)"
  by (simp add: numeral_eq_Suc)

lemma floor_numeral_div:
  "\<lfloor>numeral a / numeral b :: rat\<rfloor> = numeral a div numeral b"
  using floor_divide_of_int_eq [of "numeral a" "numeral b", where ?'a = rat] by simp

lemmas binary32_eval = binary32_def ulp_def ulp32_numeral round_even_def Let_def floor_numeral_div

text \<open>
  The rounding computes: a third, an exact value, and a tie above \<open>2 ^ 24\<close>.
\<close>

lemma binary32_third: "binary32 (1 / 3) = 11184811 / 33554432"
  by (simp add: binary32_eval)


lemma binary32_tie: "binary32 16777217 = 16777216"
  by (simp add: binary32_eval)

lemma round_even_of_int: "round_even (of_int z) = z"
  by (simp add: round_even_def)


lemma ulp32_form: "\<exists>i\<le>k. ulp32 k u x = u / 2 ^ i"
proof (induction k arbitrary: u)
  case 0
  show ?case by simp
next
  case (Suc k)
  show ?case
  proof (cases "x < 2 ^ 23 * u")
    case True
    from Suc.IH [of "u / 2"] obtain i where "i \<le> k" "ulp32 k (u / 2) x = u / 2 / 2 ^ i"
      by blast
    then have "Suc i \<le> Suc k" "ulp32 (Suc k) u x = u / 2 ^ Suc i" using True by simp_all
    then show ?thesis by blast
  next
    case False
    then have "ulp32 (Suc k) u x = u / 2 ^ 0" by simp
    then show ?thesis by blast
  qed
qed

lemma ulp32_below: "2 ^ 23 * (u / 2 ^ k) \<le> x \<Longrightarrow> 2 ^ 23 * ulp32 k u x \<le> x"
proof (induction k arbitrary: u)
  case 0
  then show ?case by simp
next
  case (Suc k)
  then show ?case by (cases "x < 2 ^ 23 * u") simp_all
qed



lemma ulp_normal:
  assumes "min_normal \<le> x"
  shows "2 ^ 23 * ulp x \<le> x"
proof -
  have "0 < x" using assms by (simp add: min_normal_def)
  then have a: "\<bar>x\<bar> = x" by simp
  have "(2::rat) ^ 23 * (2 ^ 104 / 2 ^ 253) = 1 / 2 ^ 126" by simp
  then have "(2::rat) ^ 23 * (2 ^ 104 / 2 ^ 253) \<le> x"
    using assms by (simp only: min_normal_def)
  then show ?thesis unfolding ulp_def a by (rule ulp32_below)
qed


lemma binary32_of_nat:
  assumes "n < 2 ^ 24"
  shows "binary32 (of_nat n) = of_nat n"
proof (cases "n = 0")
  case True
  then show ?thesis by (simp add: binary32_def)
next
  case False
  define x :: rat where "x = of_nat n"
  have x1: "1 \<le> x" using False by (simp add: x_def)
  then have mn: "min_normal \<le> x" by (simp add: min_normal_def)
  have le: "2 ^ 23 * ulp x \<le> x" by (rule ulp_normal [OF mn])
  have "x < 2 ^ 24" using assms unfolding x_def by (metis of_nat_less_iff of_nat_numeral of_nat_power)
  then have u2: "ulp x < 2" using le by simp
  obtain i where i: "i \<le> 253" "ulp x = 2 ^ 104 / 2 ^ i"
    using ulp32_form [of 253 "2 ^ 104" "\<bar>x\<bar>"] unfolding ulp_def by blast
  have "104 \<le> i"
  proof (rule ccontr)
    assume "\<not> 104 \<le> i"
    then have "i \<le> 103" by simp
    then have "(2::rat) ^ i \<le> 2 ^ 103" by (intro power_increasing) simp_all
    then have "(2::rat) * 2 ^ i \<le> 2 ^ 104" by simp
    then have "2 \<le> ulp x" unfolding i(2) by (simp add: le_divide_eq)
    then show False using u2 by simp
  qed
  then obtain j where j: "i = 104 + j" using le_Suc_ex by blast
  have u: "ulp x = 1 / 2 ^ j" unfolding i(2) j by (simp add: power_add)
  have "x / ulp x = of_int (int n * 2 ^ j)" unfolding u by (simp add: x_def)
  then have r: "round_even (x / ulp x) = int n * 2 ^ j" by (simp only: round_even_of_int)
  have "x \<noteq> 0" using x1 by simp
  then have "binary32 x = of_int (round_even (x / ulp x)) * ulp x"
    by (simp add: binary32_def)
  also have "\<dots> = of_int (int n * 2 ^ j) * ulp x" by (simp only: r)
  also have "\<dots> = of_int (int n * 2 ^ j) * (1 / 2 ^ j)" by (simp only: u)
  also have "\<dots> = x" by (simp add: x_def)
  finally have "binary32 x = x" .
  then show ?thesis by (simp add: x_def)
qed



lemma binary32_zero: "binary32 0 = 0"
  by (simp add: binary32_def)

lemma binary32_one: "binary32 1 = 1"
  using binary32_of_nat [of 1] by simp

lemma binary32_numeral: "numeral k < (16777216::nat) \<Longrightarrow> binary32 (numeral k) = numeral k"
  using binary32_of_nat [of "numeral k"] by simp

section \<open>Unfolding the loops on numerals\<close>

lemma clear_loop_numeral:
  "clear_loop (numeral k) arr =
     (case wr arr (pred_numeral k) 0 of
        Inl e \<Rightarrow> Inl e
      | Inr arr' \<Rightarrow> clear_loop (pred_numeral k) arr')"
  by (simp add: numeral_eq_Suc)

lemma fillValue_loop_numeral:
  "fillValue_loop (numeral k) s val =
     (case addValue s val of
        Inl e \<Rightarrow> Inl e
      | Inr s' \<Rightarrow> fillValue_loop (pred_numeral k) s' val)"
  by (simp add: numeral_eq_Suc)

lemma getAverageLast_loop_numeral:
  "getAverageLast_loop (numeral k) s idx acc =
     (let idx1 = (if idx = 0 then m_size s else idx);
          idx2 = idx1 - 1
      in case rd (m_array s) (unat idx2) of
           Inl e \<Rightarrow> Inl e
         | Inr x \<Rightarrow>
             getAverageLast_loop (pred_numeral k) s idx2 (binary32 (acc + of_nat (unat x))))"
  by (simp add: numeral_eq_Suc)

lemmas eval_defs =
  session_def RunningAverage_def clear_def setPartial_def fillValue_def addValue_def
  rd_def wr_def Let_def clear_loop_numeral fillValue_loop_numeral

section \<open>The invariant is kept\<close>

lemma sum_list_update_ring:
  fixes xs :: "'a::comm_ring_1 list"
  shows "i < length xs \<Longrightarrow> sum_list (xs[i := v]) = sum_list xs - xs ! i + v"
  by (induction xs arbitrary: i) (auto split: nat.splits simp: algebra_simps)

lemma clear_loop_None: "clear_loop n None = (if n = 0 then Inr None else Inl NullPointer)"
  by (cases n) (simp_all add: wr_def)

lemma clear_loop_Some:
  "n \<le> length a \<Longrightarrow> clear_loop n (Some a) = Inr (Some (replicate n 0 @ drop n a))"
proof (induction n arbitrary: a)
  case 0
  show ?case by simp
next
  case (Suc n)
  have lt: "n < length a" using Suc.prems by simp
  have "drop n (a[n := 0]) = 0 # drop (Suc n) a"
    using lt by (simp add: Cons_nth_drop_Suc [symmetric])
  then show ?case
    using lt Suc.IH [of "a[n := 0]"] by (simp add: wr_def replicate_app_Cons_same)
qed

lemma mod_distinct:
  fixes k n p :: nat
  assumes "k < n" "n - k < p"
  shows "k mod p \<noteq> n mod p"
proof
  assume "k mod p = n mod p"
  then have "p dvd n - k"
    using assms(1) by (metis mod_eq_dvd_iff_nat less_imp_le_nat)
  then have "p \<le> n - k"
    using assms(1) by (intro dvd_imp_le) simp_all
  then show False using assms(2) by simp
qed

lemma window_step:
  fixes a :: "'a list"
  assumes p: "0 < p" "p \<le> length a"
    and win: "\<forall>k. length h - min (length h) p \<le> k \<and> k < length h \<longrightarrow> a ! (k mod p) = h ! k"
    and k: "Suc (length h) - min (Suc (length h)) p \<le> k" "k < Suc (length h)"
  shows "a[length h mod p := v] ! (k mod p) = (h @ [v]) ! k"
proof (cases "k = length h")
  case True
  have "length h mod p < length a" using p by (meson less_le_trans mod_less_divisor)
  then show ?thesis using True by simp
next
  case False
  then have lt: "k < length h" using k by simp
  have lo: "length h - min (length h) p \<le> k" using k by arith
  have "length h - k < p" using k lt by arith
  then have "k mod p \<noteq> length h mod p"
    by (rule mod_distinct [OF lt])
  then show ?thesis using win lo lt by (simp add: nth_append)
qed

lemma zero_step:
  fixes a :: "'a::zero list"
  assumes p: "0 < p"
    and z: "\<forall>i. min n p \<le> i \<and> i < sz \<longrightarrow> a ! i = 0"
    and i: "min (Suc n) p \<le> i" "i < sz"
  shows "a[n mod p := v] ! i = 0"
proof -
  have "n mod p < i"
  proof (cases "n < p")
    case True
    then show ?thesis using i by simp
  next
    case False
    then have "p \<le> i" using i by simp
    then show ?thesis using p by (meson less_le_trans mod_less_divisor)
  qed
  moreover have "min n p \<le> i" using i by arith
  ultimately show ?thesis using z i by simp
qed

lemma sum_step:
  fixes a :: "u16 list"
  assumes p: "0 < p" "p \<le> length a"
    and z: "\<forall>i. min n p \<le> i \<and> i < p \<longrightarrow> a ! i = 0"
  shows "sum_list (take (min (Suc n) p) (a[n mod p := v])) =
         sum_list (take (min n p) a) - a ! (n mod p) + v"
proof (cases "n < p")
  case True
  then have n: "n < length a" "n mod p = n" "min n p = n" "min (Suc n) p = Suc n"
    using p by simp_all
  have "a ! n = 0" using z True n by simp
  then show ?thesis
    using n by (simp add: take_Suc_conv_app_nth)
next
  case False
  then have m: "min n p = p" "min (Suc n) p = p" by simp_all
  have i: "n mod p < p" using p by simp
  have "sum_list ((take p a)[n mod p := v]) = sum_list (take p a) - take p a ! (n mod p) + v"
    using i p by (intro sum_list_update_ring) simp
  then show ?thesis using m i by (simp add: take_update_swap)
qed


lemma unat_succ_less:
  fixes x y :: u16
  shows "x < y \<Longrightarrow> unat (x + 1) = Suc (unat x)"
  by unat_arith

lemma addValue_Some:
  assumes "m_array s = Some a" "unat (m_index s) < length a"
  shows "addValue s v =
     Inr (s\<lparr>m_count := (if m_count s < m_partial s then m_count s + 1 else m_count s),
            m_index := (if m_index s + 1 = m_partial s then 0 else m_index s + 1),
            m_sum := m_sum s - a ! unat (m_index s) + v,
            m_array := Some (a[unat (m_index s) := v]),
            m_min := (if m_count s = 0 then v else if v < m_min s then v else m_min s),
            m_max := (if m_count s = 0 then v else if v < m_min s then m_max s
                      else if v > m_max s then v else m_max s)\<rparr>)"
  using assms by (simp add: addValue_def rd_def wr_def Let_def)

lemma invar_addValue:
  assumes inv: "invar s h" and arr: "m_array s = Some a" and sz: "m_size s \<noteq> 0"
  shows "\<exists>s'. addValue s v = Inr s' \<and> invar s' (h @ [v]) \<and> m_array s' \<noteq> None \<and>
              m_size s' = m_size s \<and> m_partial s' = m_partial s"
proof -
  define p where "p = unat (m_partial s)"
  define n where "n = length h"
  have len: "length a = unat (m_size s) * sizeof_float div sizeof_uint16"
    and ps: "m_partial s \<le> m_size s"
    and p0: "m_partial s \<noteq> 0"
    and cnt: "unat (m_count s) = min n p"
    and idx: "unat (m_index s) = n mod p"
    and win: "\<forall>k. n - min n p \<le> k \<and> k < n \<longrightarrow> a ! (k mod p) = h ! k"
    and zero: "\<forall>i. min n p \<le> i \<and> i < unat (m_size s) \<longrightarrow> a ! i = 0"
    and sum: "m_sum s = sum_list (take (min n p) a)"
    and mm: "m_min s \<le> m_max s"
    using inv arr sz by (auto simp: invar_def p_def n_def)
  have ppos: "0 < p" using p0 by (simp add: p_def unat_gt_0)
  have psz: "p \<le> unat (m_size s)" using ps by (simp add: p_def word_le_nat_alt)
  have pa: "p \<le> length a" using psz len by (simp add: sizeof_float_def sizeof_uint16_def)
  have ilt: "unat (m_index s) < p" using idx ppos by simp
  have ia: "unat (m_index s) < length a" using ilt pa by simp
  let ?s' = "s\<lparr>m_count := (if m_count s < m_partial s then m_count s + 1 else m_count s),
            m_index := (if m_index s + 1 = m_partial s then 0 else m_index s + 1),
            m_sum := m_sum s - a ! unat (m_index s) + v,
            m_array := Some (a[unat (m_index s) := v]),
            m_min := (if m_count s = 0 then v else if v < m_min s then v else m_min s),
            m_max := (if m_count s = 0 then v else if v < m_min s then m_max s
                      else if v > m_max s then v else m_max s)\<rparr>"
  have step: "addValue s v = Inr ?s'" by (rule addValue_Some [OF arr ia])
  have c': "unat (m_count ?s') = min (Suc n) p"
  proof (cases "m_count s < m_partial s")
    case True
    then have "n < p" using cnt by (simp add: word_less_nat_alt p_def [symmetric])
    then show ?thesis using True cnt by (simp add: unat_succ_less)
  next
    case False
    then have "p \<le> n" using cnt by (simp add: word_less_nat_alt p_def [symmetric])
    then show ?thesis using False cnt by simp
  qed
  have ilt': "m_index s < m_partial s" using ilt by (simp add: word_less_nat_alt p_def)
  have i1: "unat (m_index s + 1) = Suc (n mod p)"
    using unat_succ_less [OF ilt'] idx by simp
  have "(m_index s + 1 = m_partial s) = (Suc (n mod p) = p)"
    using i1 by (simp add: word_unat_eq_iff p_def)
  then have i': "unat (m_index ?s') = Suc n mod p"
    using i1 by (simp add: mod_Suc)
  have w': "\<forall>k. Suc n - min (Suc n) p \<le> k \<and> k < Suc n \<longrightarrow>
               a[n mod p := v] ! (k mod p) = (h @ [v]) ! k"
    using window_step [OF ppos pa, of h] win by (simp add: n_def)
  have z': "\<forall>i. min (Suc n) p \<le> i \<and> i < unat (m_size s) \<longrightarrow> a[n mod p := v] ! i = 0"
    using zero_step [OF ppos zero] by blast
  have zp: "\<forall>i. min n p \<le> i \<and> i < p \<longrightarrow> a ! i = 0"
    using zero psz by auto
  have s': "m_sum s - a ! (n mod p) + v = sum_list (take (min (Suc n) p) (a[n mod p := v]))"
    using sum_step [OF ppos pa zp, of v] sum by simp
  have mm': "m_min ?s' \<le> m_max ?s'" using mm by auto
  have "invar ?s' (h @ [v])"
    unfolding invar_def
    using len ps p0 c' i' w' z' s' mm' idx
    by (simp add: p_def [symmetric] n_def [symmetric])
  then show ?thesis using step by simp
qed


lemma invar_shape: "invar s h \<Longrightarrow> shape s"
  by (auto simp: invar_def shape_def split: option.splits)

lemma block_length: "n \<le> n * sizeof_float div sizeof_uint16"
  by (simp add: sizeof_float_def sizeof_uint16_def)

lemma clear_shape:
  assumes "shape s"
  shows "clear s =
     Inr (s\<lparr>m_count := 0, m_index := 0, m_sum := 0, m_min := 0, m_max := 0,
            m_array := map_option (\<lambda>a. replicate (unat (m_size s)) 0 @ drop (unat (m_size s)) a)
                         (m_array s)\<rparr>)"
proof (cases "m_array s")
  case None
  then show ?thesis using assms by (simp add: clear_def shape_def)
next
  case (Some a)
  then have "unat (m_size s) \<le> length a"
    using assms by (simp add: shape_def block_length)
  then show ?thesis using Some by (simp add: clear_def clear_loop_Some)
qed

lemma invar_clear:
  assumes "shape s"
  shows "\<exists>s'. clear s = Inr s' \<and> invar s' [] \<and> m_size s' = m_size s \<and>
              m_partial s' = m_partial s \<and> (m_array s' = None) = (m_array s = None)"
proof (cases "m_array s")
  case None
  then show ?thesis
    using assms clear_shape [OF assms] by (simp add: invar_def shape_def)
next
  case (Some a)
  then have "unat (m_size s) \<le> length a"
    using assms by (simp add: shape_def block_length)
  then show ?thesis
    using assms Some clear_shape [OF assms]
    by (auto simp: invar_def shape_def nth_append)
qed

lemma getAverage_loop_Some:
  "n \<le> length a \<Longrightarrow>
   getAverage_loop (Some a) i n acc = Inr (acc + sum_list (take (n - i) (drop i a)))"
proof (induction "n - i" arbitrary: i acc)
  case 0
  then show ?case by (simp add: getAverage_loop.simps)
next
  case (Suc d)
  then have lt: "i < n" "i < length a" and d: "d = n - Suc i" by simp_all
  have n: "n - i = Suc (n - Suc i)" using lt by simp
  have "take (n - i) (drop i a) = a ! i # take (n - Suc i) (drop (Suc i) a)"
    using lt by (simp only: n Cons_nth_drop_Suc [symmetric] take_Suc_Cons)
  then show ?case
    using lt Suc.hyps(1) [OF d Suc.prems]
    by (subst getAverage_loop.simps) (simp add: rd_def add.assoc)
qed

lemma invar_getAverage:
  assumes "invar s h"
  shows "getAverage s =
     Inr (if m_count s = 0 then None else Some (getFastAverage s), s)"
proof (cases "m_count s = 0")
  case True
  then show ?thesis by (simp add: getAverage_def)
next
  case False
  then obtain a where a: "m_array s = Some a"
    using assms by (auto simp: invar_def split: option.splits)
  have "unat (m_count s) \<le> unat (m_partial s)" "m_partial s \<le> m_size s"
    "unat (m_size s) \<le> length a" "m_sum s = sum_list (take (unat (m_count s)) a)"
    using assms a by (simp_all add: invar_def block_length)
  then have le: "unat (m_count s) \<le> length a"
    and sum: "sum_list (take (unat (m_count s)) a) = m_sum s"
    by (simp_all add: word_le_nat_alt)
  have "getAverage s = Inr (Some (m_sum s div m_count s), s\<lparr>m_sum := m_sum s\<rparr>)"
    using a False by (simp add: getAverage_def getAverage_loop_Some [OF le] sum)
  then show ?thesis
    using False by (simp add: getFastAverage_def)
qed

lemma addValue_None: "m_array s = None \<Longrightarrow> addValue s v = Inr s"
  by (simp add: addValue_def)

lemma fillValue_loop_None: "m_array s = None \<Longrightarrow> fillValue_loop k s v = Inr s"
  by (induction k) (simp_all add: addValue_None)

lemma invar_fillValue_loop:
  assumes "invar s h" "m_array s \<noteq> None" "k = 0 \<or> m_size s \<noteq> 0"
  shows "\<exists>s'. fillValue_loop k s v = Inr s' \<and> invar s' (h @ replicate k v) \<and>
              m_array s' \<noteq> None \<and> m_size s' = m_size s \<and> m_partial s' = m_partial s"
  using assms
proof (induction k arbitrary: s h)
  case 0
  then show ?case by simp
next
  case (Suc k)
  from Suc.prems obtain a where a: "m_array s = Some a" by auto
  from Suc.prems have sz: "m_size s \<noteq> 0" by simp
  from invar_addValue [OF Suc.prems(1) a sz, of v]
  obtain s1 where s1: "addValue s v = Inr s1" "invar s1 (h @ [v])" "m_array s1 \<noteq> None"
    "m_size s1 = m_size s" "m_partial s1 = m_partial s" by auto
  from Suc.IH [OF s1(2) s1(3)] sz s1(4)
  obtain s' where "fillValue_loop k s1 v = Inr s'" "invar s' ((h @ [v]) @ replicate k v)"
    "m_array s' \<noteq> None" "m_size s' = m_size s1" "m_partial s' = m_partial s1" by auto
  then show ?case using s1 by (simp add: replicate_app_Cons_same)
qed

lemma fill_count:
  fixes number partial :: u16
  shows "unat (if number > partial then partial else number) = min (unat number) (unat partial)"
  by (simp add: word_less_nat_alt min_def)

lemma invar_fillValue:
  assumes "shape s"
  shows "\<exists>s'. fillValue s v number = Inr s' \<and> invar s' (samples (FillValue v number) s []) \<and>
              m_size s' = m_size s \<and> m_partial s' = m_partial s \<and>
              (m_array s' = None) = (m_array s = None)"
proof -
  from invar_clear [OF assms]
  obtain s1 where s1: "clear s = Inr s1" "invar s1 []" "m_size s1 = m_size s"
    "m_partial s1 = m_partial s" "(m_array s1 = None) = (m_array s = None)" by auto
  define k where "k = min (unat number) (unat (m_partial s1))"
  have fv: "fillValue s v number = fillValue_loop k s1 v"
    using s1(1) by (simp add: fillValue_def fill_count k_def split del: if_split)
  show ?thesis
  proof (cases "m_array s = None")
    case True
    then show ?thesis using s1 fv by (simp add: fillValue_loop_None)
  next
    case False
    have "k = 0 \<or> m_size s1 \<noteq> 0"
      using assms False s1 by (auto simp: shape_def k_def split: option.splits)
    from invar_fillValue_loop [OF s1(2) _ this, of v] False s1
    show ?thesis using fv by (auto simp: k_def)
  qed
qed

lemma shape_setPartial:
  "shape s \<Longrightarrow>
   shape (s\<lparr>m_partial := (if p = 0 \<or> p > m_size s then m_size s else p)\<rparr>)"
  by (auto simp: shape_def word_neq_0_conv split: option.splits)

lemma invar_setPartial:
  assumes "shape s"
  shows "\<exists>s'. setPartial s p = Inr s' \<and> invar s' [] \<and> m_size s' = m_size s \<and>
              m_partial s' = (if p = 0 \<or> p > m_size s then m_size s else p) \<and>
              (m_array s' = None) = (m_array s = None)"
  using invar_clear [OF shape_setPartial [OF assms, of p]]
  by (simp add: setPartial_def Let_def)

lemma invar_constructor:
  assumes "malloc_ok sz mem"
  shows "\<exists>s. RunningAverage sz mem = Inr s \<and> invar s [] \<and>
             m_size s = (if mem = None then 0 else sz) \<and> m_partial s = sz \<and>
             (m_array s = None) = (mem = None)"
proof -
  have "shape \<lparr>m_size = (if mem = None then 0 else sz), m_count = 0, m_index = 0,
            m_partial = sz, m_sum = 0, m_array = mem, m_min = 0, m_max = 0\<rparr>"
    using assms by (auto simp: shape_def malloc_ok_def split: option.splits)
  from invar_clear [OF this] show ?thesis by (simp add: RunningAverage_def)
qed

lemma addValue_size_0:
  assumes "invar s h" "m_array s \<noteq> None" "m_size s = 0"
  shows "addValue s v = Inl OutOfBounds"
  using assms
  by (auto simp: invar_def addValue_def rd_def sizeof_float_def sizeof_uint16_def
      split: option.splits)

lemma invar_exec:
  assumes "invar s h" "exec c s = Inr s'"
  shows "invar s' (samples c s h)"
proof (cases c)
  case Clear
  then show ?thesis using invar_clear [OF invar_shape [OF assms(1)]] assms(2) by auto
next
  case (AddValue v)
  show ?thesis
  proof (cases "m_array s")
    case None
    then show ?thesis using assms AddValue by (simp add: addValue_None)
  next
    case (Some a)
    then have "m_size s \<noteq> 0"
      using addValue_size_0 [OF assms(1), of v] assms(2) AddValue by auto
    from invar_addValue [OF assms(1) Some this, of v]
    show ?thesis using assms(2) AddValue Some by auto
  qed
next
  case (FillValue v n)
  from invar_fillValue [OF invar_shape [OF assms(1)], of v n]
  show ?thesis using assms(2) FillValue by auto
next
  case (SetPartial p)
  from invar_setPartial [OF invar_shape [OF assms(1)], of p]
  show ?thesis using assms(2) SetPartial by auto
next
  case GetAverage
  then show ?thesis
    using assms invar_getAverage [OF assms(1)] by auto
qed

lemma reachable_invar: "reachable s h \<Longrightarrow> invar s h"
proof (induction rule: reachable.induct)
  case (constructed sz mem s)
  then show ?case using invar_constructor [of sz mem] by auto
next
  case (called s h c s')
  then show ?case by (simp add: invar_exec)
qed

text \<open>
  On an object reached from the constructor every call returns, unless the object has size 0
  and a block (what \<open>malloc\<close> of 0 bytes may return): there \<open>addValue\<close> writes to slot 0 of
  an empty block.
\<close>

lemma exec_returns:
  assumes "reachable s h" and "m_array s = None \<or> m_size s \<noteq> 0"
  shows "\<exists>s'. exec c s = Inr s'"
proof -
  have inv: "invar s h" by (rule reachable_invar [OF assms(1)])
  have sh: "shape s" by (rule invar_shape [OF inv])
  show ?thesis
  proof (cases c)
    case Clear
    then show ?thesis using invar_clear [OF sh] by auto
  next
    case (AddValue v)
    show ?thesis
    proof (cases "m_array s")
      case None
      then show ?thesis using AddValue by (simp add: addValue_None)
    next
      case (Some a)
      then have "m_size s \<noteq> 0" using assms(2) by simp
      from invar_addValue [OF inv Some this, of v] show ?thesis using AddValue by auto
    qed
  next
    case (FillValue v n)
    then show ?thesis using invar_fillValue [OF sh, of v n] by auto
  next
    case (SetPartial p)
    then show ?thesis using invar_setPartial [OF sh, of p] by auto
  next
    case GetAverage
    then show ?thesis using invar_getAverage [OF inv] by simp
  qed
qed

section \<open>The scenario of four samples in a window of three\<close>

text \<open>
  Claim C2. A buffer constructed with size 3 (window 3), after \<open>addValue\<close> of 1, 2, 3, 4 in
  that order: the slots 0, 1, 2 hold 4, 2, 3; the write index is 1; \<open>getFastAverage\<close> returns 3;
  \<open>getMin\<close> is 1 and \<open>getMax\<close> is 4; \<open>getMinInBuffer\<close> is 2 and \<open>getMaxInBuffer\<close> is 4. The block
  is the one \<open>malloc\<close> returns for size 3, with any contents.
\<close>

theorem scenario_1_2_3_4:
  "malloc_ok 3 (Some [b0, b1, b2, b3, b4, b5]) \<and>
   (\<exists>s a. session 3 (Some [b0, b1, b2, b3, b4, b5])
              [AddValue 1, AddValue 2, AddValue 3, AddValue 4] = Inr s \<and>
          m_array s = Some a \<and> take 3 a = [4, 2, 3] \<and>
          m_size s = 3 \<and> m_partial s = 3 \<and> m_index s = 1 \<and>
          getFastAverage s = 3 \<and>
          getMin s = 1 \<and> getMax s = 4 \<and>
          getMinInBuffer s = Inr 2 \<and> getMaxInBuffer s = Inr 4)"
  by (simp add: eval_defs malloc_ok_def sizeof_float_def sizeof_uint16_def
      getFastAverage_def getMin_def getMax_def
      getMinInBuffer_def getMinInBuffer_loop.simps
      getMaxInBuffer_def getMaxInBuffer_loop.simps)

section \<open>getElement reads any index\<close>

text \<open>
  Claim C7 says that no query reads outside the storage, and that \<open>getElement\<close> in particular
  never does, for any index. \<open>getElement\<close> only checks that the buffer is not empty: on a buffer
  of size 3 holding one sample, whose block has the slots 0 to 5, the index 1000 is read
  outside the block.
\<close>

theorem getElement_out_of_bounds:
  "\<exists>s. session 3 (Some [b0, b1, b2, b3, b4, b5]) [AddValue 7] = Inr s \<and>
       m_count s = 1 \<and> getElement s 1000 = Inl OutOfBounds"
  by (simp add: eval_defs getElement_def)

section \<open>getAverageLast wraps at the size, not at the window\<close>

text \<open>
  Claim C5 says that \<open>getAverageLast\<close> averages the most recent samples, walking backward from
  the write index and wrapping at the window length \<open>_partial\<close>. The loop wraps at \<open>_size\<close>. On
  a buffer of size 3 with the window set to 2, after the samples 10 and 20, the average of the
  last two samples is 15; the walk reads slot 2, which is outside the window and holds 0, and
  slot 1, and returns 10.
\<close>

theorem getAverageLast_wraps_at_size:
  "\<exists>s. session 3 (Some [b0, b1, b2, b3, b4, b5])
          [SetPartial 2, AddValue 10, AddValue 20] = Inr s \<and>
       m_partial s = 2 \<and> m_count s = 2 \<and> m_index s = 0 \<and>
       getValue s 0 = Inr 10 \<and> getValue s 1 = Inr 20 \<and>
       getAverageLast s 2 = Inr (Some 10) \<and>
       getAverageLast_declared s 2 = Inr (Some 10)"
  by (simp add: eval_defs getAverageLast_declared_def getAverageLast_def
      getAverageLast_loop_numeral getValue_def word_le_nat_alt
      binary32_zero binary32_numeral to_uint16_def)

section \<open>More facts about the calls\<close>



lemma reachable_st0: "reachable st0 []"
proof (rule constructed)
  show "malloc_ok 2 (Some [7, 7, 7, 7])"
    by (simp add: malloc_ok_def sizeof_float_def sizeof_uint16_def)
  show "RunningAverage 2 (Some [7, 7, 7, 7]) = Inr st0"
    by (simp add: eval_defs st0_def)
qed

lemma run_st2: "run [AddValue 65535, AddValue 65535] st0 = Inr st2"
  by (simp add: eval_defs st0_def st2_def)

lemma reachable_run:
  "reachable s h \<Longrightarrow> run cs s = Inr s' \<Longrightarrow> \<exists>h'. reachable s' h'"
proof (induction cs arbitrary: s h)
  case Nil
  then show ?case by auto
next
  case (Cons c cs)
  then obtain s1 where s1: "exec c s = Inr s1" "run cs s1 = Inr s'"
    by (auto split: sum.splits)
  from called [OF Cons.prems(1) s1(1)] Cons.IH [OF _ s1(2)] show ?case by blast
qed

lemma reachable_st2: "\<exists>h. reachable st2 h"
  using reachable_run [OF reachable_st0 run_st2] .

lemma clear_loop_overrun: "length a < n \<Longrightarrow> clear_loop n (Some a) = Inl OutOfBounds"
  by (cases n) (simp_all add: wr_def)

lemma clear_loop_zero:
  assumes "clear_loop n arr = Inr arr'" and "i < n"
  shows "rd arr' i = Inr 0"
proof (cases arr)
  case None
  then show ?thesis using assms by (simp add: clear_loop_None split: if_splits)
next
  case (Some a)
  then have le: "n \<le> length a"
    using assms(1) clear_loop_overrun [of a n] by (cases "n \<le> length a") auto
  then show ?thesis
    using assms Some by (auto simp: clear_loop_Some rd_def nth_append)
qed

lemma clear_zeroed: "clear s = Inr s' \<Longrightarrow> zeroed s'"
  by (auto simp: clear_def zeroed_def clear_loop_zero split: sum.splits)

section \<open>The running sum\<close>




section \<open>Minimum and maximum kept by addValue\<close>

text \<open>
  Claim C6. In \<open>addValue\<close> on an object with a buffer: when \<open>_count\<close> is zero, which is when no
  sample was added since the last clear, \<open>_min\<close> and \<open>_max\<close> both become the value added;
  otherwise \<open>_min\<close> changes exactly when the value is strictly less than it, and \<open>_max\<close> exactly
  when the value is strictly greater than it.
\<close>

theorem addValue_min_max:
  assumes "reachable s h" and "m_array s \<noteq> None" and "addValue s v = Inr s'"
  shows "(m_count s = 0) = (h = []) \<and>
         (m_count s = 0 \<longrightarrow> m_min s' = v \<and> m_max s' = v) \<and>
         (m_count s \<noteq> 0 \<longrightarrow>
            m_min s' = (if v < m_min s then v else m_min s) \<and>
            m_max s' = (if v > m_max s then v else m_max s))"
proof -
  have inv: "invar s h" by (rule reachable_invar [OF assms(1)])
  obtain a where a: "m_array s = Some a" using assms(2) by auto
  have sz: "m_size s \<noteq> 0"
    using addValue_size_0 [OF inv assms(2), of v] assms(3) by auto
  have p: "m_partial s \<noteq> 0" and c: "unat (m_count s) = min (length h) (unat (m_partial s))"
    and mm: "m_min s \<le> m_max s"
    using inv a sz by (auto simp: invar_def)
  have "0 < unat (m_partial s)" using p by (simp add: unat_gt_0)
  then have "(unat (m_count s) = 0) = (h = [])" using c by (cases h) auto
  then have e: "(m_count s = 0) = (h = [])" by (simp add: unat_eq_0)
  show ?thesis
    using assms(3) a e mm
    by (auto simp: addValue_def rd_def wr_def Let_def split: if_splits)
qed


theorem addValue_min_max_witness:
  "(\<exists>h. reachable st2 h) \<and> m_array st2 \<noteq> None \<and> m_count st2 \<noteq> 0 \<and>
   (\<exists>s'. addValue st2 1 = Inr s' \<and> m_min s' = 1 \<and> m_max s' = 65535)"
proof -
  obtain h where h: "reachable st2 h" using reachable_st2 by blast
  have a: "m_array st2 \<noteq> None" by (simp add: st2_def)
  obtain s' where s': "addValue st2 1 = Inr s'" by (simp add: eval_defs st2_def)
  have "m_count st2 \<noteq> 0" "m_min st2 = 65535" "m_max st2 = 65535" by (simp_all add: st2_def)
  then show ?thesis using addValue_min_max [OF h a s'] h a s' by auto
qed

section \<open>clear and setPartial zero the object\<close>

text \<open>
  Claim C9. After \<open>clear\<close> returns, and after \<open>setPartial\<close> returns for any argument, \<open>_count\<close>,
  \<open>_index\<close>, \<open>_sum\<close>, \<open>_min\<close> and \<open>_max\<close> are zero and every slot below \<open>_size\<close> holds zero; and on
  an object reached from the constructor both calls do return.
\<close>

theorem clear_setPartial_zero:
  "(clear s = Inr s' \<or> setPartial s p = Inr s' \<longrightarrow> zeroed s') \<and>
   (reachable s h \<longrightarrow> (\<exists>t. clear s = Inr t) \<and> (\<exists>t. setPartial s p = Inr t))"
proof (intro conjI impI)
  assume "clear s = Inr s' \<or> setPartial s p = Inr s'"
  then show "zeroed s'"
    by (auto simp: setPartial_def Let_def dest: clear_zeroed)
next
  assume "reachable s h"
  then have "shape s" by (intro invar_shape reachable_invar)
  then show "\<exists>t. clear s = Inr t" using invar_clear by blast
next
  assume "reachable s h"
  then have "shape s" by (intro invar_shape reachable_invar)
  then show "\<exists>t. setPartial s p = Inr t" using invar_setPartial by blast
qed

theorem clear_setPartial_zero_witness:
  "(\<exists>h. reachable st2 h) \<and>
   clear st2 = Inr st0 \<and>
   setPartial st2 1 = Inr (st0\<lparr>m_partial := 1\<rparr>) \<and>
   zeroed st0 \<and> zeroed (st0\<lparr>m_partial := 1\<rparr>)"
proof -
  obtain h where h: "reachable st2 h" using reachable_st2 by blast
  have c: "clear st2 = Inr st0" by (simp add: eval_defs st0_def st2_def)
  have p: "setPartial st2 1 = Inr (st0\<lparr>m_partial := 1\<rparr>)"
    by (simp add: eval_defs st0_def st2_def word_less_nat_alt)
  show ?thesis
    using clear_setPartial_zero [of st2 st0 1 h]
      clear_setPartial_zero [of st2 "st0\<lparr>m_partial := 1\<rparr>" 1 h] h c p
    by auto
qed

section \<open>getAverage recomputes what getFastAverage reads\<close>

text \<open>
  Claim C10. On every non-empty object reached from the constructor, \<open>getAverage\<close> returns the
  value \<open>getFastAverage\<close> returns, and leaves the object as it was: the sum it writes to \<open>_sum\<close>
  is the value \<open>_sum\<close> had.
\<close>

theorem getAverage_is_getFastAverage:
  assumes "reachable s h" and "m_count s \<noteq> 0"
  shows "getAverage s = Inr (Some (getFastAverage s), s)"
  using invar_getAverage [OF reachable_invar [OF assms(1)]] assms(2) by simp

theorem getAverage_is_getFastAverage_witness:
  "(\<exists>h. reachable st2 h) \<and> m_count st2 \<noteq> 0 \<and> getAverage st2 = Inr (Some 32767, st2)"
proof -
  obtain h where h: "reachable st2 h" using reachable_st2 by blast
  have c: "m_count st2 \<noteq> 0" by (simp add: st2_def)
  have "getFastAverage st2 = 32767" by (simp add: getFastAverage_def st2_def)
  then show ?thesis using getAverage_is_getFastAverage [OF h c] h c by auto
qed

section \<open>fillValue followed by getFastAverage\<close>







section \<open>getValue\<close>

lemma reachable_run_samples:
  "reachable s h \<Longrightarrow> run cs s = Inr s' \<Longrightarrow> reachable s' (samples_run cs s h)"
proof (induction cs arbitrary: s h)
  case Nil
  then show ?case by simp
next
  case (Cons c cs)
  then obtain s1 where s1: "exec c s = Inr s1" "run cs s1 = Inr s'"
    by (auto split: sum.splits)
  from Cons.IH [OF called [OF Cons.prems(1) s1(1)] s1(2)] s1(1)
  show ?case by simp
qed

lemma reachable_session:
  assumes "malloc_ok sz mem" "RunningAverage sz mem = Inr s0" "session sz mem cs = Inr s"
  shows "reachable s (samples_run cs s0 [])"
proof -
  have "run cs s0 = Inr s" using assms(2,3) by (simp add: session_def)
  then show ?thesis using reachable_run_samples [OF constructed [OF assms(1,2)]] by simp
qed

lemma reachable_st4: "reachable st4 [1, 2, 3, 4]"
proof -
  let ?s0 = "\<lparr>m_size = 3, m_count = 0, m_index = 0, m_partial = 3, m_sum = 0,
          m_array = Some [0, 0, 0, 7, 7, 7], m_min = 0, m_max = 0\<rparr>"
  have m: "malloc_ok 3 (Some [7, 7, 7, 7, 7, 7])"
    by (simp add: malloc_ok_def sizeof_float_def sizeof_uint16_def)
  have c: "RunningAverage 3 (Some [7, 7, 7, 7, 7, 7]) = Inr ?s0"
    by (simp add: eval_defs)
  have r: "session 3 (Some [7, 7, 7, 7, 7, 7])
             [AddValue 1, AddValue 2, AddValue 3, AddValue 4] = Inr st4"
    by (simp add: eval_defs st4_def)
  have "samples_run [AddValue 1, AddValue 2, AddValue 3, AddValue 4] ?s0 [] = [1, 2, 3, 4]"
    by (simp add: eval_defs)
  then show ?thesis using reachable_session [OF m c r] by simp
qed

lemma slot_of_position:
  fixes n p q :: nat
  assumes "0 < p" and "q < min n p"
  shows "(n - min n p + q) mod p =
         (if min n p \<le> q + n mod p then q + n mod p - min n p else q + n mod p)"
proof (cases "n < p")
  case True
  then show ?thesis using assms by simp
next
  case False
  then have m: "min n p = p" and pn: "p \<le> n" by simp_all
  have "(n - p + q) mod p = (n - p + q + p) mod p" by simp
  also have "\<dots> = (n + q) mod p" using pn by simp
  also have "\<dots> = (n mod p + q) mod p" by (simp add: mod_add_left_eq)
  finally have e: "(n - p + q) mod p = (n mod p + q) mod p" .
  have lt: "n mod p + q < p + p" using assms m by (simp add: add_strict_mono)
  show ?thesis
  proof (cases "p \<le> q + n mod p")
    case True
    then have "(n mod p + q) mod p = n mod p + q - p"
      using lt by (simp add: le_mod_geq add.commute)
    then show ?thesis using e m True by (simp add: add.commute)
  next
    case False
    then show ?thesis using e m by (simp add: add.commute)
  qed
qed

lemma of_nat_u16_neq:
  "j < 65536 \<Longrightarrow> k < 65536 \<Longrightarrow> j \<noteq> k \<Longrightarrow> (of_nat j :: u16) \<noteq> of_nat k"
  by (simp add: word_unat_eq_iff unat_of_nat)

lemma replicate_update_same: "(replicate n x)[j := x] = replicate n x"
  by (induction n arbitrary: j) (simp_all split: nat.splits)

lemma addValue_zeros:
  assumes "Suc j < 40000"
  shows "addValue (zeros j) 0 = Inr (zeros (Suc j))"
proof -
  have lt: "(of_nat j :: u16) < 40000"
    using assms by (simp add: word_less_nat_alt unat_of_nat)
  have ne: "(1 + of_nat j :: u16) \<noteq> 40000"
    using of_nat_u16_neq [of "Suc j" 40000] assms by simp
  have u: "unat (of_nat j :: u16) = j" using assms by (simp add: unat_of_nat)
  have "j < 80000" using assms by simp
  then show ?thesis
    using lt ne u
    by (simp add: addValue_def rd_def wr_def Let_def zeros_def add.commute
        replicate_update_same)
qed

lemma fillValue_loop_zeros:
  "j + k < 40000 \<Longrightarrow> fillValue_loop k (zeros j) 0 = Inr (zeros (j + k))"
proof (induction k arbitrary: j)
  case 0
  show ?case by simp
next
  case (Suc k)
  then show ?case using Suc.IH [of "Suc j"] by (simp add: addValue_zeros)
qed

lemma clear_zeros: "clear (zeros j) = Inr (zeros 0)"
proof -
  have "replicate 40000 0 @ replicate 40000 (0::u16) = replicate 80000 0"
    by (simp add: replicate_add [symmetric])
  then show ?thesis by (simp add: clear_def clear_loop_Some zeros_def)
qed

lemma construct_zeros: "RunningAverage 40000 (Some (replicate 80000 0)) = Inr (zeros 0)"
proof -
  have "replicate 40000 0 @ replicate 40000 (0::u16) = replicate 80000 0"
    by (simp add: replicate_add [symmetric])
  then show ?thesis by (simp add: RunningAverage_def clear_def clear_loop_Some zeros_def)
qed

lemma fillValue_zeros: "fillValue (zeros 0) 0 32768 = Inr (zeros 32768)"
proof -
  have "fillValue (zeros 0) 0 32768 = fillValue_loop 32768 (zeros 0) 0"
    by (simp add: fillValue_def clear_zeros) (simp add: zeros_def)
  then show ?thesis using fillValue_loop_zeros [of 0 32768] by simp
qed

lemma addValue_big: "addValue (zeros 32768) 1 = Inr big"
  by (simp add: addValue_def rd_def wr_def Let_def zeros_def big_def)

text \<open>
  Claim C8 says that \<open>getValue\<close> returns 0 on an empty buffer or a position not below \<open>_count\<close>,
  and otherwise the sample at that position among the samples held, counted from the oldest.
  The slot is computed as \<open>position + _index\<close> in \<open>uint16_t\<close>, minus \<open>_count\<close> when it reaches
  \<open>_count\<close>. What holds: the first part as it is, and the second whenever \<open>position + _index\<close>
  does not exceed 65535, which is so in every window of at most 32768 slots.
\<close>

theorem getValue_oldest:
  assumes "reachable s h"
  shows "(m_count s = 0 \<or> m_count s \<le> position \<longrightarrow> getValue s position = Inr 0) \<and>
         (position < m_count s \<and> unat position + unat (m_index s) < 65536 \<longrightarrow>
            getValue s position = Inr (held s h ! unat position)) \<and>
         (position < m_count s \<and> unat (m_partial s) \<le> 32768 \<longrightarrow>
            unat position + unat (m_index s) < 65536)"
proof (intro conjI impI)
  assume "m_count s = 0 \<or> m_count s \<le> position"
  then show "getValue s position = Inr 0" by (auto simp: getValue_def)
next
  assume asm: "position < m_count s \<and> unat position + unat (m_index s) < 65536"
  have inv: "invar s h" by (rule reachable_invar [OF assms])
  define p where "p = unat (m_partial s)"
  define n where "n = length h"
  define q where "q = unat position"
  have c0: "m_count s \<noteq> 0" using asm by auto
  then obtain a where a: "m_array s = Some a"
    using inv by (auto simp: invar_def split: option.splits)
  have cnt: "unat (m_count s) = min n p"
    and idx: "unat (m_index s) = n mod p"
    and win: "\<forall>k. n - min n p \<le> k \<and> k < n \<longrightarrow> a ! (k mod p) = h ! k"
    and pa: "p \<le> length a"
  proof -
    show "unat (m_count s) = min n p" "unat (m_index s) = n mod p"
      using inv a by (simp_all add: invar_def p_def n_def)
    then show "\<forall>k. n - min n p \<le> k \<and> k < n \<longrightarrow> a ! (k mod p) = h ! k"
      using inv a by (simp add: invar_def p_def n_def)
    have "p \<le> unat (m_size s)" "unat (m_size s) \<le> length a"
      using inv a by (simp_all add: invar_def p_def word_le_nat_alt block_length)
    then show "p \<le> length a" by simp
  qed
  have qc: "q < min n p" using asm cnt by (simp add: word_less_nat_alt q_def)
  then have ppos: "0 < p" by simp
  have no: "q + n mod p < 65536" using asm idx by (simp add: q_def)
  have upos: "unat (position + m_index s) = q + n mod p"
    using no idx by (simp add: unat_word_ariths q_def)
  have ge: "(m_count s \<le> position + m_index s) = (min n p \<le> q + n mod p)"
    using upos cnt by (simp add: word_le_nat_alt)
  define slot where "slot = (n - min n p + q) mod p"
  have slot: "slot = (if min n p \<le> q + n mod p then q + n mod p - min n p else q + n mod p)"
    unfolding slot_def by (rule slot_of_position [OF ppos qc])
  have "slot < p" unfolding slot_def using ppos by (rule mod_less_divisor)
  then have slot_lt: "slot < length a" using pa by simp
  have "unat (if m_count s \<le> position + m_index s
              then position + m_index s - m_count s else position + m_index s) = slot"
    using ge upos cnt slot by (simp add: unat_sub word_le_nat_alt)
  moreover have "\<not> m_count s \<le> position" using asm by (simp add: not_le)
  ultimately have gv: "getValue s position = Inr (a ! slot)"
    using c0 a slot_lt by (simp add: getValue_def Let_def rd_def)
  have "n - min n p \<le> n - min n p + q \<and> n - min n p + q < n" using qc by auto
  then have "a ! slot = h ! (n - min n p + q)"
    using win unfolding slot_def by blast
  also have "\<dots> = held s h ! q"
    using qc by (simp add: held_def cnt n_def [symmetric])
  finally show "getValue s position = Inr (held s h ! unat position)"
    using gv by (simp add: q_def)
next
  assume asm: "position < m_count s \<and> unat (m_partial s) \<le> 32768"
  have inv: "invar s h" by (rule reachable_invar [OF assms])
  have "m_count s \<noteq> 0" using asm by auto
  then obtain a where a: "m_array s = Some a"
    using inv by (auto simp: invar_def split: option.splits)
  have cnt: "unat (m_count s) = min (length h) (unat (m_partial s))"
    and idx: "unat (m_index s) = length h mod unat (m_partial s)"
    using inv a by (simp_all add: invar_def)
  have "unat position < unat (m_count s)" using asm by (simp add: word_less_nat_alt)
  then have q: "unat position < unat (m_partial s)" using cnt by simp
  then have "unat (m_index s) < unat (m_partial s)" using idx by simp
  then show "unat position + unat (m_index s) < 65536" using q asm by simp
qed

theorem getValue_oldest_witness:
  "reachable st4 [1, 2, 3, 4] \<and>
   (2::u16) < m_count st4 \<and> unat (2::u16) + unat (m_index st4) < 65536 \<and>
   m_count st4 \<le> 3 \<and>
   held st4 [1, 2, 3, 4] = [2, 3, 4] \<and>
   getValue st4 2 = Inr 4 \<and> getValue st4 3 = Inr 0"
proof -
  have a: "(2::u16) < m_count st4" "unat (2::u16) + unat (m_index st4) < 65536"
    "m_count st4 \<le> 3"
    by (simp_all add: st4_def)
  have h: "held st4 [1, 2, 3, 4] = [2, 3, 4]" by (simp add: held_def st4_def)
  show ?thesis
    using getValue_oldest [OF reachable_st4, of 2] getValue_oldest [OF reachable_st4, of 3]
      reachable_st4 a h
    by simp
qed

text \<open>
  The claim as it is written fails on a buffer of size 40000 after 32768 samples 0 and one
  sample 1: position 32768 is the sample 1, the sum \<open>32768 + 32769\<close> wraps to 1, which is below
  \<open>_count\<close>, and slot 1 is returned, which holds 0.
\<close>

theorem getValue_overflow:
  "session 40000 (Some (replicate 80000 0)) [FillValue 0 32768, AddValue 1] = Inr big \<and>
   reachable big (replicate 32768 0 @ [1]) \<and>
   (32768::u16) < m_count big \<and>
   held big (replicate 32768 0 @ [1]) ! unat (32768::u16) = 1 \<and>
   getValue big 32768 = Inr 0"
proof -
  have m: "malloc_ok 40000 (Some (replicate 80000 0))"
    by (simp add: malloc_ok_def sizeof_float_def sizeof_uint16_def)
  have r: "session 40000 (Some (replicate 80000 0)) [FillValue 0 32768, AddValue 1] = Inr big"
    by (simp add: session_def construct_zeros fillValue_zeros addValue_big)
  have "samples_run [FillValue 0 32768, AddValue 1] (zeros 0) [] = replicate 32768 0 @ [1]"
    by (simp add: fillValue_zeros addValue_big) (simp add: zeros_def)
  then have re: "reachable big (replicate 32768 0 @ [1])"
    using reachable_session [OF m construct_zeros r] by simp
  have c: "(32768::u16) < m_count big" by (simp add: big_def)
  have h: "held big (replicate 32768 0 @ [1]) ! unat (32768::u16) = 1"
    by (simp add: held_def big_def nth_append)
  have g: "getValue big 32768 = Inr 0"
    by (simp add: getValue_def Let_def rd_def big_def)
  show ?thesis using r re c h g by simp
qed

section \<open>getAverageLast on a full buffer\<close>






text \<open>
  The rounding of the quotient shows after the samples 1, 0, 0 in a buffer of size 3: the
  \<open>float\<close> returned is the binary32 value next to a third, and its conversion is 0.
\<close>

lemma getAverageLast_third:
  "session 3 (Some [7, 7, 7, 7, 7, 7]) [AddValue 1, AddValue 0, AddValue 0] = Inr st_third \<and>
   getAverageLast st_third 3 = Inr (Some (11184811 / 33554432)) \<and>
   getAverageLast_declared st_third 3 = Inr (Some 0) \<and>
   getFastAverage st_third = 0"
proof -
  have r: "session 3 (Some [7, 7, 7, 7, 7, 7]) [AddValue 1, AddValue 0, AddValue 0]
      = Inr st_third"
    by (simp add: eval_defs st_third_def)
  have g: "getAverageLast st_third 3 = Inr (Some (11184811 / 33554432))"
    by (simp add: st_third_def getAverageLast_def getAverageLast_loop_numeral
        rd_def Let_def binary32_zero binary32_one binary32_third)
  have d: "getAverageLast_declared st_third 3 = Inr (Some 0)"
    by (simp add: getAverageLast_declared_def g to_uint16_def floor_numeral_div)
  have f: "getFastAverage st_third = 0" by (simp add: getFastAverage_def st_third_def)
  show ?thesis using r g d f by simp
qed




end
